theory Spec2Isabelle
  imports Complex_Main "HOL-Library.Stream"
begin

section \<open>Values and document trees\<close>

text \<open>
  The converter works on Go values of type \<^verbatim>\<open>interface{}\<close>: what
  \<^verbatim>\<open>encoding/json\<close> decodes into (nil, bool, float64, string, slices and
  \<^verbatim>\<open>map[string]interface{}\<close>) and what \<^verbatim>\<open>generateRandomValue\<close> adds to
  these (an \<^verbatim>\<open>int\<close> and the empty struct). A finite \<^verbatim>\<open>float64\<close> is a
  rational number, and JSON decoding yields only finite ones, so the model carries a
  \<^typ>\<open>rat\<close>. A Go map is a partial function from its keys. Trees are values here:
  a document decoded from JSON shares no sub-map between two places.
\<close>

datatype val =
    VNil
  | VBool bool
  | VFloat rat
  | VInt int
  | VString string
  | VArray "val list"
  | VMap "string \<Rightarrow> val option"
  | VUnit

type_synonym tree = "string \<Rightarrow> val option"

text \<open>The ways in which the Go code stops instead of returning.\<close>

datatype error =
    IndexOutOfRange
  | TypeAssertionFailure
  | IntnInvalidArgument
  | Fatal string

text \<open>\<^verbatim>\<open>const NullValue = "NULL"\<close>, as it appears once converted to \<^verbatim>\<open>interface{}\<close>.\<close>

definition NullValue :: val where
  "NullValue = VString ''NULL''"

section \<open>Reading and writing by path\<close>

text \<open>
  \<^verbatim>\<open>extractFieldValue(data, path)\<close>: the empty path yields the map itself, a
  missing key yields nil, the last segment yields the stored value (with the string
  \<^verbatim>\<open>"NULL"\<close> standing in for a stored nil), and an inner segment is followed only
  through a map.
\<close>

fun extractFieldValue :: "tree \<Rightarrow> string list \<Rightarrow> val" where
  "extractFieldValue data [] = VMap data"
| "extractFieldValue data (p0 # rest) =
     (case data p0 of
        None \<Rightarrow> VNil
      | Some v \<Rightarrow>
          if rest = [] then (if v = VNil then NullValue else v)
          else (case v of
                  VMap typed \<Rightarrow> extractFieldValue typed rest
                | _ \<Rightarrow> VNil))"

text \<open>
  \<^verbatim>\<open>insertFieldValue(data, path, value)\<close> mutates the map in place; the model returns
  the map after the call. Each segment but the last is created as an empty map when it is
  missing and then asserted to be a map (\<^verbatim>\<open>data[key].(map[string]interface{})\<close>
  panics on anything else, nil included). An empty path passes the loop and panics at
  \<^verbatim>\<open>path[len(path)-1]\<close>.
\<close>

fun insertFieldValue :: "tree \<Rightarrow> string list \<Rightarrow> val \<Rightarrow> error + tree" where
  "insertFieldValue data [] v = Inl IndexOutOfRange"
| "insertFieldValue data [k] v =
     Inr (data(k \<mapsto> (if v = NullValue then VNil else v)))"
| "insertFieldValue data (key # k # rest) v =
     (case (case data key of None \<Rightarrow> VMap Map.empty | Some x \<Rightarrow> x) of
        VMap child \<Rightarrow>
          (case insertFieldValue child (k # rest) v of
             Inl e \<Rightarrow> Inl e
           | Inr child' \<Rightarrow> Inr (data(key \<mapsto> VMap child')))
      | _ \<Rightarrow> Inl TypeAssertionFailure)"

text \<open>
  What a tree holds at a path, read with Go's comma-ok lookup at every level and
  nothing else: \<open>None\<close> when a key on the way is missing or an inner value is no map.
\<close>

fun stored_at :: "tree \<Rightarrow> string list \<Rightarrow> val option" where
  "stored_at data [] = Some (VMap data)"
| "stored_at data [k] = data k"
| "stored_at data (key # k # rest) =
     (case data key of
        Some (VMap child) \<Rightarrow> stored_at child (k # rest)
      | _ \<Rightarrow> None)"

fun is_tree :: "val \<Rightarrow> bool" where
  "is_tree (VMap m) = True"
| "is_tree _ = False"

text \<open>
  The precondition of the writer, in the words of its contract: some segment of the
  path other than the last one already holds a value that is no nested tree. The segment
  at position \<open>i\<close> is reached by the first \<open>i\<close> segments of the path.
\<close>

definition intermediate_not_tree :: "tree \<Rightarrow> string list \<Rightarrow> bool" where
  "intermediate_not_tree t p =
     list_ex (\<lambda>i. case stored_at t (take i p) of None \<Rightarrow> False | Some v \<Rightarrow> \<not> is_tree v)
       [1..<length p]"

section \<open>Applying the field mapping\<close>

text \<open>
  \<^verbatim>\<open>strings.Split(s, ".")\<close> as \<^verbatim>\<open>main\<close> calls it: the pieces of \<open>s\<close> between
  dots, one more than there are dots, so never an empty list.
\<close>

fun Split_dot :: "string \<Rightarrow> string list" where
  "Split_dot [] = [[]]"
| "Split_dot (c # cs) =
     (if c = CHR ''.'' then [] # Split_dot cs
      else (case Split_dot cs of
              [] \<Rightarrow> [[c]]
            | w # ws \<Rightarrow> (c # w) # ws))"

text \<open>
  The body of the first loop of \<^verbatim>\<open>main\<close> over \<^verbatim>\<open>mapping.FieldMapping\<close>: the
  value at the old path of the input document is written at the new path of the output
  document, unless the reader returned nil.
\<close>

definition main_field_mapping_step :: "tree \<Rightarrow> tree \<Rightarrow> string \<times> string \<Rightarrow> error + tree" where
  "main_field_mapping_step source newSource rule =
     (case rule of (newField, oldField) \<Rightarrow>
        (let v = extractFieldValue source (Split_dot oldField)
         in if v \<noteq> VNil then insertFieldValue newSource (Split_dot newField) v
            else Inr newSource))"


section \<open>Random values\<close>

text \<open>
  Go's \<^verbatim>\<open>int\<close> on a 64-bit platform: arithmetic wraps around in two's complement.
\<close>

definition wrap_int :: "int \<Rightarrow> int" where
  "wrap_int x = (x + 2 ^ 63) mod 2 ^ 64 - 2 ^ 63"

text \<open>
  The conversion \<^verbatim>\<open>int(f)\<close> of a \<^verbatim>\<open>float64\<close> drops the fraction. When the
  result does not fit, Go leaves the value to the implementation; the model takes the one
  amd64 produces.
\<close>

definition truncate_toward_zero :: "rat \<Rightarrow> int" where
  "truncate_toward_zero f = (if 0 \<le> f then \<lfloor>f\<rfloor> else \<lceil>f\<rceil>)"

definition float64_to_int :: "rat \<Rightarrow> int" where
  "float64_to_int f =
     (let t = truncate_toward_zero f
      in if - (2 ^ 63) \<le> t \<and> t < 2 ^ 63 then t else - (2 ^ 63))"

text \<open>
  The generator \<^verbatim>\<open>*rand.Rand\<close> belongs to the Go library. The model keeps of it a
  stream that holds, for each call of \<^verbatim>\<open>Intn\<close> still to come, the number this call
  reduces into its range, and the contract of \<^verbatim>\<open>Intn(n)\<close>: a panic when
  \<open>n \<le> 0\<close>, otherwise a number from \<open>0\<close> up to \<open>n - 1\<close>, each of which some
  stream yields.
\<close>

type_synonym rng = "nat stream"

definition Intn :: "rng \<Rightarrow> int \<Rightarrow> error + (int \<times> rng)" where
  "Intn rn n =
     (if n \<le> 0 then Inl IntnInvalidArgument
      else Inr (int (shd rn) mod n, stl rn))"

text \<open>
  Two branches of \<^verbatim>\<open>generateRandomValue\<close> compute with library code on bytes and
  on floating-point numbers: 64 random bytes in base64, and
  \<^verbatim>\<open>math.Round((mn + rn.Float64()*(mx-mn))*100) / 100\<close>. Both are parameters here.
\<close>

record library =
  random_base64 :: "rng \<Rightarrow> string \<times> rng"
  random_rounded :: "rng \<Rightarrow> rat \<Rightarrow> rat \<Rightarrow> rat \<times> rng"

text \<open>
  \<^verbatim>\<open>generateRandomValue(rn, config)\<close>. The \<^verbatim>\<open>date\<close> case has an empty body, so
  control leaves the switch and reaches \<^verbatim>\<open>return struct{}{}\<close>. The assertions
  \<^verbatim>\<open>.(float64)\<close> and \<^verbatim>\<open>.([]interface{})\<close> panic on a missing key or another
  type.
\<close>

definition generateRandomValue ::
    "library \<Rightarrow> rng \<Rightarrow> (string \<Rightarrow> val option) \<Rightarrow> error + (val \<times> rng)" where
  "generateRandomValue lib rn config =
     (case config ''type'' of
        Some (VString ty) \<Rightarrow>
          if ty = ''binary'' then
            (case random_base64 lib rn of (s, rn') \<Rightarrow> Inr (VString s, rn'))
          else if ty = ''boolean'' then
            (case Intn rn 2 of
               Inl e \<Rightarrow> Inl e
             | Inr (i, rn') \<Rightarrow> Inr (VBool (i = 0), rn'))
          else if ty = ''date'' then Inr (VUnit, rn)
          else if ty \<in> set [''long'', ''integer'', ''short'', ''byte''] then
            (case config ''min'' of
               Some (VFloat fmn) \<Rightarrow>
                 (case config ''max'' of
                    Some (VFloat fmx) \<Rightarrow>
                      (let mn = float64_to_int fmn; mx = float64_to_int fmx
                       in case Intn rn (wrap_int (wrap_int (mx - mn) + 1)) of
                            Inl e \<Rightarrow> Inl e
                          | Inr (i, rn') \<Rightarrow> Inr (VInt (wrap_int (i + mn)), rn'))
                  | _ \<Rightarrow> Inl TypeAssertionFailure)
             | _ \<Rightarrow> Inl TypeAssertionFailure)
          else if ty \<in> set [''double'', ''float'', ''half_float''] then
            (case config ''min'' of
               Some (VFloat mn) \<Rightarrow>
                 (case config ''max'' of
                    Some (VFloat mx) \<Rightarrow>
                      (case random_rounded lib rn mn mx of (d, rn') \<Rightarrow> Inr (VFloat d, rn'))
                  | _ \<Rightarrow> Inl TypeAssertionFailure)
             | _ \<Rightarrow> Inl TypeAssertionFailure)
          else if ty \<in> set [''keyword'', ''wildcard'', ''constant_keyword''] then
            (case config ''values'' of
               Some (VArray values) \<Rightarrow>
                 (case Intn rn (int (length values)) of
                    Inl e \<Rightarrow> Inl e
                  | Inr (i, rn') \<Rightarrow> Inr (values ! nat i, rn'))
             | _ \<Rightarrow> Inl TypeAssertionFailure)
          else Inr (VNil, rn)
      | _ \<Rightarrow> Inr (VNil, rn))"

text \<open>
  A library for closed examples of the branches that call none of its functions.
\<close>

definition stub_library :: library where
  "stub_library =
     \<lparr>random_base64 = (\<lambda>rn. ([], rn)), random_rounded = (\<lambda>rn mn mx. (mn, rn))\<rparr>"

section \<open>The side-data table\<close>

text \<open>
  The first loop of \<^verbatim>\<open>extractFileData\<close> looks for the header \<^verbatim>\<open>"id"\<close> and
  leaves \<open>-1\<close> when there is none.
\<close>

fun idIndex_loop :: "string list \<Rightarrow> int \<Rightarrow> int" where
  "idIndex_loop [] i = - 1"
| "idIndex_loop (header # headers) i =
     (if header = ''id'' then i else idIndex_loop headers (i + 1))"

text \<open>Reading \<^verbatim>\<open>row[i]\<close> panics outside the row.\<close>

definition index_row :: "string list \<Rightarrow> int \<Rightarrow> error + string" where
  "index_row row i =
     (if 0 \<le> i \<and> i < int (length row) then Inr (row ! nat i) else Inl IndexOutOfRange)"

text \<open>The inner loop over the headers, from position \<open>i\<close> on, filling \<^verbatim>\<open>fields\<close>.\<close>

fun fields_loop :: "string list \<Rightarrow> int \<Rightarrow> int \<Rightarrow> string list \<Rightarrow> tree \<Rightarrow> error + tree" where
  "fields_loop [] i idIndex row fieldset = Inr fieldset"
| "fields_loop (header # headers) i idIndex row fieldset =
     (if i \<noteq> idIndex then
        (case index_row row i of
           Inl e \<Rightarrow> Inl e
         | Inr cell \<Rightarrow> fields_loop headers (i + 1) idIndex row (fieldset(header \<mapsto> VString cell)))
      else fields_loop headers (i + 1) idIndex row fieldset)"

text \<open>The outer loop over \<^verbatim>\<open>records[1:]\<close>, filling \<^verbatim>\<open>dataMapByID\<close>.\<close>

fun rows_loop ::
    "string list \<Rightarrow> int \<Rightarrow> string list list \<Rightarrow> (string \<Rightarrow> tree option) \<Rightarrow>
       error + (string \<Rightarrow> tree option)" where
  "rows_loop headers idIndex [] dataMapByID = Inr dataMapByID"
| "rows_loop headers idIndex (row # rows) dataMapByID =
     (case index_row row idIndex of
        Inl e \<Rightarrow> Inl e
      | Inr rid \<Rightarrow>
          (case fields_loop headers 0 idIndex row Map.empty of
             Inl e \<Rightarrow> Inl e
           | Inr fieldset \<Rightarrow> rows_loop headers idIndex rows (dataMapByID(rid \<mapsto> fieldset))))"

text \<open>
  \<^verbatim>\<open>extractFileData(fileData, filePath)\<close>; it never uses \<^verbatim>\<open>fileData\<close>. Opening
  the file and \<^verbatim>\<open>csv.NewReader(file).ReadAll()\<close> are the parameter \<open>readAll\<close>: the
  records of the file at a path, or the error on which the code calls
  \<^verbatim>\<open>log.Fatal\<close>. Then \<^verbatim>\<open>records[0]\<close> panics when there is no record.
\<close>

definition extractFileData ::
    "(string \<Rightarrow> error + string list list) \<Rightarrow> string \<Rightarrow> error + (string \<Rightarrow> tree option)" where
  "extractFileData readAll filePath =
     (case readAll filePath of
        Inl err \<Rightarrow> Inl err
      | Inr records \<Rightarrow>
          (case records of
             [] \<Rightarrow> Inl IndexOutOfRange
           | headers # rows \<Rightarrow>
               (let idIndex = idIndex_loop headers 0
                in if idIndex = - 1 then Inl (Fatal ''id column not found'')
                   else rows_loop headers idIndex rows Map.empty)))"

section \<open>Paths through a tree\<close>

lemma stored_at_Cons:
  "ks \<noteq> [] \<Longrightarrow> stored_at t (key # ks) =
     (case t key of Some (VMap child) \<Rightarrow> stored_at child ks | _ \<Rightarrow> None)"
  by (cases ks) (auto split: option.splits val.splits)

lemma stored_at_empty: "p \<noteq> [] \<Longrightarrow> stored_at Map.empty p = None"
proof (cases p)
  case Nil
  assume "p \<noteq> []"
  with Nil show ?thesis by simp
next
  case (Cons k ks)
  then show ?thesis by (cases ks) simp_all
qed

lemma extract_Cons:
  "ks \<noteq> [] \<Longrightarrow> extractFieldValue data (key # ks) =
     (case data key of Some (VMap typed) \<Rightarrow> extractFieldValue typed ks | _ \<Rightarrow> VNil)"
  by (auto split: option.splits val.splits)

lemma intermediate_short: "length p \<le> 1 \<Longrightarrow> \<not> intermediate_not_tree t p"
  by (simp add: intermediate_not_tree_def list_ex_iff)

lemma intermediate_empty: "\<not> intermediate_not_tree Map.empty p"
proof -
  have "stored_at Map.empty (take i p) = None" if "1 \<le> i" "i < length p" for i
  proof -
    from that have "take i p \<noteq> []" by (cases p; cases i) auto
    then show ?thesis by (rule stored_at_empty)
  qed
  then show ?thesis
    by (auto simp: intermediate_not_tree_def list_ex_iff)
qed

lemma intermediate_Cons:
  "intermediate_not_tree t (key # k # rest) =
     (case t key of
        None \<Rightarrow> False
      | Some (VMap child) \<Rightarrow> intermediate_not_tree child (k # rest)
      | Some _ \<Rightarrow> True)"
proof -
  let ?q = "k # rest"
  let ?bad = "\<lambda>t p. case stored_at t p of None \<Rightarrow> False | Some v \<Rightarrow> \<not> is_tree v"
  have idx: "{1..<length (key # ?q)} = insert 1 (Suc ` {1..<length ?q})"
    by (auto simp: image_iff)
  have ex_split: "(\<exists>i\<in>{1..<length (key # ?q)}. P i) =
      (P 1 \<or> (\<exists>j\<in>{1..<length ?q}. P (Suc j)))" for P :: "nat \<Rightarrow> bool"
    unfolding idx by blast
  have deep: "?bad t (key # take j ?q) =
      (case t key of Some (VMap child) \<Rightarrow> ?bad child (take j ?q) | _ \<Rightarrow> False)"
    if "j \<in> {1..<length ?q}" for j
  proof -
    from that have "take j ?q \<noteq> []" by (cases j) auto
    then show ?thesis
      by (simp add: stored_at_Cons split: option.splits val.splits)
  qed
  have "intermediate_not_tree t (key # ?q) =
      (?bad t [key] \<or> (\<exists>j\<in>{1..<length ?q}. ?bad t (key # take j ?q)))"
    unfolding intermediate_not_tree_def list_ex_iff set_upt ex_split by simp
  also have "\<dots> = (?bad t [key] \<or> (\<exists>j\<in>{1..<length ?q}.
      case t key of Some (VMap child) \<Rightarrow> ?bad child (take j ?q) | _ \<Rightarrow> False))"
    using deep by simp
  also have "\<dots> = (case t key of
        None \<Rightarrow> False
      | Some (VMap child) \<Rightarrow> intermediate_not_tree child ?q
      | Some _ \<Rightarrow> True)"
    unfolding intermediate_not_tree_def list_ex_iff set_upt
    by (cases "t key") (auto split: val.splits)
  finally show ?thesis .
qed

lemma insert_fails_iff:
  "(insertFieldValue t p v = Inl TypeAssertionFailure) = intermediate_not_tree t p"
proof (induction t p v rule: insertFieldValue.induct)
  case (1 data v)
  then show ?case by (simp add: intermediate_short)
next
  case (2 data k v)
  then show ?case by (simp add: intermediate_short)
next
  case (3 data key k rest v)
  then show ?case
    by (auto simp: intermediate_Cons intermediate_empty split: option.splits val.splits sum.splits)
qed

lemma insert_error_cases:
  "insertFieldValue t p v = Inl e \<Longrightarrow>
     (p = [] \<and> e = IndexOutOfRange) \<or> (p \<noteq> [] \<and> e = TypeAssertionFailure)"
  by (induction t p v arbitrary: e rule: insertFieldValue.induct)
     (auto split: option.splits val.splits sum.splits)

lemma insert_Cons_Inr:
  assumes "insertFieldValue data (key # k # rest) v = Inr t'"
  obtains child child' where
    "data key = None \<and> child = Map.empty \<or> data key = Some (VMap child)"
    "insertFieldValue child (k # rest) v = Inr child'"
    "t' = data(key \<mapsto> VMap child')"
  using assms by (auto split: option.splits val.splits sum.splits)

lemma insert_then_extract:
  "insertFieldValue t p v = Inr t' \<Longrightarrow>
     extractFieldValue t' p = (if v = VNil then NullValue else v)"
proof (induction t p v arbitrary: t' rule: insertFieldValue.induct)
  case (1 data v)
  then show ?case by simp
next
  case (2 data k v)
  then show ?case by (auto simp: NullValue_def)
next
  case (3 data key k rest v)
  from "3.prems" obtain child child' where
    c: "data key = None \<and> child = Map.empty \<or> data key = Some (VMap child)"
    and i: "insertFieldValue child (k # rest) v = Inr child'"
    and t': "t' = data(key \<mapsto> VMap child')"
    by (rule insert_Cons_Inr)
  from c have "(case data key of None \<Rightarrow> VMap Map.empty | Some x \<Rightarrow> x) = VMap child"
    by auto
  from "3.IH"[OF this i]
  have "extractFieldValue child' (k # rest) = (if v = VNil then NullValue else v)" .
  with t' show ?case by (simp add: extract_Cons del: extractFieldValue.simps)
qed

lemma insert_twice:
  "insertFieldValue t p v = Inr t' \<Longrightarrow> insertFieldValue t' p v = Inr t'"
proof (induction t p v arbitrary: t' rule: insertFieldValue.induct)
  case (1 data v)
  then show ?case by simp
next
  case (2 data k v)
  then show ?case by auto
next
  case (3 data key k rest v)
  from "3.prems" obtain child child' where
    c: "data key = None \<and> child = Map.empty \<or> data key = Some (VMap child)"
    and i: "insertFieldValue child (k # rest) v = Inr child'"
    and t': "t' = data(key \<mapsto> VMap child')"
    by (rule insert_Cons_Inr)
  from c have "(case data key of None \<Rightarrow> VMap Map.empty | Some x \<Rightarrow> x) = VMap child"
    by auto
  from "3.IH"[OF this i]
  have "insertFieldValue child' (k # rest) v = Inr child'" .
  with t' show ?case by (auto simp: fun_eq_iff)
qed

lemma extract_through_non_tree:
  "pre \<noteq> [] \<Longrightarrow> rest \<noteq> [] \<Longrightarrow> stored_at data pre = Some v \<Longrightarrow> \<not> is_tree v \<Longrightarrow>
     extractFieldValue data (pre @ rest) = VNil"
proof (induction data pre arbitrary: v rule: stored_at.induct)
  case (1 data)
  then show ?case by simp
next
  case (2 data k)
  then show ?case by (cases v) auto
next
  case (3 data key k rest')
  from "3.prems" obtain child where child: "data key = Some (VMap child)"
    and st: "stored_at child (k # rest') = Some v"
    by (auto split: option.splits val.splits)
  from "3.IH"[OF child refl _ "3.prems"(2) st "3.prems"(4)]
  have "extractFieldValue child ((k # rest') @ rest) = VNil" by simp
  with child show ?case by (simp add: extract_Cons del: extractFieldValue.simps)
qed

lemma Split_dot_nonempty: "Split_dot s \<noteq> []"
  by (induction s) (auto split: list.splits)

lemma extract_stored:
  "p \<noteq> [] \<Longrightarrow> extractFieldValue t p =
     (case stored_at t p of None \<Rightarrow> VNil | Some v \<Rightarrow> if v = VNil then NullValue else v)"
proof (induction t p rule: stored_at.induct)
  case (1 data)
  then show ?case by simp
next
  case (2 data k)
  then show ?case by (simp split: option.splits)
next
  case (3 data key k rest)
  show ?case
  proof (cases "data key")
    case None
    then show ?thesis by simp
  next
    case (Some x)
    show ?thesis
    proof (cases x)
      case (VMap child)
      with Some "3.IH"[of x child] show ?thesis
        by (simp add: extract_Cons del: extractFieldValue.simps)
    qed (use Some in simp_all)
  qed
qed

lemma insert_stored:
  "insertFieldValue t p v = Inr t' \<Longrightarrow>
     stored_at t' p = Some (if v = NullValue then VNil else v)"
proof (induction t p v arbitrary: t' rule: insertFieldValue.induct)
  case (1 data v)
  then show ?case by simp
next
  case (2 data k v)
  then show ?case by auto
next
  case (3 data key k rest v)
  from "3.prems" obtain child child' where
    c: "data key = None \<and> child = Map.empty \<or> data key = Some (VMap child)"
    and i: "insertFieldValue child (k # rest) v = Inr child'"
    and t': "t' = data(key \<mapsto> VMap child')"
    by (rule insert_Cons_Inr)
  from c have "(case data key of None \<Rightarrow> VMap Map.empty | Some x \<Rightarrow> x) = VMap child"
    by auto
  from "3.IH"[OF this i] t' show ?case by simp
qed

lemma insert_total:
  "p \<noteq> [] \<Longrightarrow> \<not> intermediate_not_tree t p \<Longrightarrow> \<exists>t'. insertFieldValue t p v = Inr t'"
proof (cases "insertFieldValue t p v")
  case (Inl e)
  assume "p \<noteq> []" "\<not> intermediate_not_tree t p"
  with insert_error_cases[OF Inl] insert_fails_iff[of t p v] Inl show ?thesis by auto
qed auto


section \<open>Integers, draws and the generator's branches\<close>

lemma wrap_int_id: "- (2 ^ 63) \<le> x \<Longrightarrow> x < 2 ^ 63 \<Longrightarrow> wrap_int x = x"
  by (simp add: wrap_int_def)

lemma truncate_mono: "f \<le> g \<Longrightarrow> truncate_toward_zero f \<le> truncate_toward_zero g"
proof -
  assume fg: "f \<le> g"
  show ?thesis
  proof (cases "0 \<le> f")
    case True
    with fg show ?thesis by (simp add: truncate_toward_zero_def floor_mono)
  next
    case False
    then have c: "\<lceil>f\<rceil> \<le> 0" by (simp add: ceiling_le_zero)
    show ?thesis
    proof (cases "0 \<le> g")
      case True
      then have "0 \<le> \<lfloor>g\<rfloor>" by simp
      with c have "\<lceil>f\<rceil> \<le> \<lfloor>g\<rfloor>" by (rule order_trans)
      with True False show ?thesis by (simp add: truncate_toward_zero_def)
    next
      case g: False
      with False fg show ?thesis by (simp add: truncate_toward_zero_def ceiling_mono)
    qed
  qed
qed

lemma truncate_of_int: "truncate_toward_zero (of_int a) = a"
  by (simp add: truncate_toward_zero_def)

lemma float64_to_int_in_range:
  "- (2 ^ 63) \<le> truncate_toward_zero f \<Longrightarrow> truncate_toward_zero f < 2 ^ 63 \<Longrightarrow>
     float64_to_int f = truncate_toward_zero f"
  by (simp add: float64_to_int_def Let_def)

lemma Intn_range:
  "0 < n \<Longrightarrow> \<exists>i. Intn rn n = Inr (i, stl rn) \<and> 0 \<le> i \<and> i < n"
  by (simp add: Intn_def)

lemma integer_branch:
  assumes ty: "config ''type'' = Some (VString ty)"
      "ty \<in> {''long'', ''integer'', ''short'', ''byte''}"
    and mn: "config ''min'' = Some (VFloat fmn)"
    and mx: "config ''max'' = Some (VFloat fmx)"
  shows "generateRandomValue lib rn config =
     (case Intn rn (wrap_int (wrap_int (float64_to_int fmx - float64_to_int fmn) + 1)) of
        Inl e \<Rightarrow> Inl e
      | Inr (i, rn') \<Rightarrow> Inr (VInt (wrap_int (i + float64_to_int fmn)), rn'))"
proof -
  from ty(2) consider "ty = ''long''" | "ty = ''integer''" | "ty = ''short''" | "ty = ''byte''"
    by blast
  then show ?thesis
    by cases (simp_all add: generateRandomValue_def ty(1) mn mx Let_def)
qed

lemma keyword_branch:
  assumes ty: "config ''type'' = Some (VString ty)"
      "ty \<in> {''keyword'', ''wildcard'', ''constant_keyword''}"
    and vs: "config ''values'' = Some (VArray vs)"
  shows "generateRandomValue lib rn config =
     (case Intn rn (int (length vs)) of
        Inl e \<Rightarrow> Inl e
      | Inr (i, rn') \<Rightarrow> Inr (vs ! nat i, rn'))"
proof -
  from ty(2) consider "ty = ''keyword''" | "ty = ''wildcard''" | "ty = ''constant_keyword''"
    by blast
  then show ?thesis
    by cases (simp_all add: generateRandomValue_def ty(1) vs)
qed

lemma truncate_examples:
  "truncate_toward_zero (1 / 2) = 0" "truncate_toward_zero (3 / 4) = 0"
  "truncate_toward_zero 1 = 1"
  "truncate_toward_zero (- (2 ^ 62)) = - (2 ^ 62)" "truncate_toward_zero (2 ^ 62) = 2 ^ 62"
  by (simp_all add: truncate_toward_zero_def floor_eq_iff)

lemma float64_to_int_examples:
  "float64_to_int (1 / 2) = 0" "float64_to_int (3 / 4) = 0"
  "float64_to_int (- (2 ^ 62)) = - (2 ^ 62)" "float64_to_int (2 ^ 62) = 2 ^ 62"
  by (simp_all add: float64_to_int_def truncate_toward_zero_def floor_eq_iff)

lemma wrap_int_examples:
  "wrap_int 0 = 0" "wrap_int 1 = 1" "wrap_int (2 ^ 62 - - (2 ^ 62)) = - (2 ^ 63)"
  "wrap_int (- (2 ^ 63) + 1) = - (2 ^ 63) + 1"
  by (simp_all add: wrap_int_def)

section \<open>The loops of the loader\<close>

lemma idIndex_missing: "''id'' \<notin> set hs \<Longrightarrow> idIndex_loop hs i = - 1"
  by (induction hs arbitrary: i) auto

lemma idIndex_found:
  "k < length hs \<Longrightarrow> hs ! k = ''id'' \<Longrightarrow> \<forall>j<k. hs ! j \<noteq> ''id'' \<Longrightarrow>
     idIndex_loop hs i = i + int k"
proof (induction hs arbitrary: i k)
  case Nil
  then show ?case by simp
next
  case (Cons h hs)
  show ?case
  proof (cases k)
    case 0
    with Cons.prems show ?thesis by simp
  next
    case (Suc k')
    with Cons.prems have "h \<noteq> ''id''" by auto
    moreover from Suc Cons.prems have "k' < length hs" "hs ! k' = ''id''" by auto
    moreover from Suc Cons.prems have "\<forall>j<k'. hs ! j \<noteq> ''id''" by auto
    ultimately show ?thesis
      using Cons.IH[of k' "i + 1"] Suc by simp
  qed
qed

lemma index_row_nat: "n < length row \<Longrightarrow> index_row row (int n) = Inr (row ! n)"
  by (simp add: index_row_def)

lemma fields_loop_Cons:
  "fields_loop (x # hs) (int i0) k row acc =
     (if int i0 \<noteq> k then
        (case index_row row (int i0) of
           Inl e \<Rightarrow> Inl e
         | Inr cell \<Rightarrow> fields_loop hs (int (Suc i0)) k row (acc(x \<mapsto> VString cell)))
      else fields_loop hs (int (Suc i0)) k row acc)"
proof -
  have "int i0 + 1 = int (Suc i0)" by simp
  then show ?thesis by (simp only: fields_loop.simps)
qed

lemma fields_loop_total:
  "i0 + length hs \<le> length row \<Longrightarrow> \<exists>f. fields_loop hs (int i0) k row acc = Inr f"
proof (induction hs arbitrary: i0 acc)
  case Nil
  then show ?case by simp
next
  case (Cons h hs)
  from Cons.prems have "i0 < length row" "Suc i0 + length hs \<le> length row" by auto
  with Cons.IH[of "Suc i0"] show ?case
    by (simp add: index_row_nat fields_loop_Cons del: of_nat_Suc fields_loop.simps)
qed

lemma fields_loop_other:
  "fields_loop hs (int i0) k row acc = Inr f \<Longrightarrow>
     \<forall>n<length hs. int (i0 + n) \<noteq> k \<longrightarrow> hs ! n \<noteq> h \<Longrightarrow> f h = acc h"
proof (induction hs arbitrary: i0 acc)
  case Nil
  then show ?case by simp
next
  case (Cons x hs)
  from Cons.prems(2) have here: "int i0 \<noteq> k \<longrightarrow> x \<noteq> h" by force
  from Cons.prems(2) have later: "\<forall>n<length hs. int (Suc i0 + n) \<noteq> k \<longrightarrow> hs ! n \<noteq> h"
    by force
  show ?case
  proof (cases "int i0 = k")
    case True
    with Cons.prems(1)[unfolded fields_loop_Cons]
    have "fields_loop hs (int (Suc i0)) k row acc = Inr f"
      by (simp del: of_nat_Suc)
    from Cons.IH[OF this later] show ?thesis .
  next
    case False
    with Cons.prems(1) obtain cell where
      "fields_loop hs (int (Suc i0)) k row (acc(x \<mapsto> VString cell)) = Inr f"
      by (auto simp: fields_loop_Cons simp del: of_nat_Suc fields_loop.simps split: sum.splits)
    from Cons.IH[OF this later] here False show ?thesis by simp
  qed
qed

lemma fields_loop_last:
  "fields_loop hs (int i0) k row acc = Inr f \<Longrightarrow> n < length hs \<Longrightarrow> int (i0 + n) \<noteq> k \<Longrightarrow>
     i0 + length hs \<le> length row \<Longrightarrow>
     \<forall>j<length hs. n < j \<and> int (i0 + j) \<noteq> k \<longrightarrow> hs ! j \<noteq> hs ! n \<Longrightarrow>
     f (hs ! n) = Some (VString (row ! (i0 + n)))"
proof (induction hs arbitrary: i0 acc n)
  case Nil
  then show ?case by simp
next
  case (Cons x hs)
  from Cons.prems(4) have len: "i0 < length row" "Suc i0 + length hs \<le> length row" by auto
  show ?case
  proof (cases n)
    case 0
    with Cons.prems(3) have ne: "int i0 \<noteq> k" by simp
    with Cons.prems(1) len have
      run: "fields_loop hs (int (Suc i0)) k row (acc(x \<mapsto> VString (row ! i0))) = Inr f"
      by (simp add: fields_loop_Cons index_row_nat del: of_nat_Suc fields_loop.simps)
    from Cons.prems(5) 0 have "\<forall>j<length hs. int (Suc i0 + j) \<noteq> k \<longrightarrow> hs ! j \<noteq> x"
      by force
    from fields_loop_other[OF run this] 0 show ?thesis by simp
  next
    case (Suc n')
    from Cons.prems(1)[unfolded fields_loop_Cons] obtain acc' where
      run: "fields_loop hs (int (Suc i0)) k row acc' = Inr f"
      by (cases "int i0 = k") (auto simp del: of_nat_Suc split: sum.splits)
    from Cons.prems(2,3) Suc have n': "n' < length hs" "int (Suc i0 + n') \<noteq> k" by auto
    from Cons.prems(5) Suc
    have "\<forall>j<length hs. n' < j \<and> int (Suc i0 + j) \<noteq> k \<longrightarrow> hs ! j \<noteq> hs ! n'"
      by force
    from Cons.IH[OF run n' len(2) this] Suc show ?thesis by simp
  qed
qed

lemma rows_loop_append:
  "rows_loop hs k (xs @ ys) m =
     (case rows_loop hs k xs m of
        Inl e \<Rightarrow> Inl e
      | Inr m' \<Rightarrow> rows_loop hs k ys m')"
  by (induction xs arbitrary: m) (auto split: sum.splits)

lemma rows_loop_total:
  "\<forall>r\<in>set rows. length r = length hs \<Longrightarrow> k < length hs \<Longrightarrow>
     \<exists>m'. rows_loop hs (int k) rows m = Inr m'"
proof (induction rows arbitrary: m)
  case Nil
  then show ?case by simp
next
  case (Cons r rows)
  then have "k < length r" "0 + length hs \<le> length r" by auto
  from fields_loop_total[OF this(2), of "int k" Map.empty] obtain f where
    "fields_loop hs 0 (int k) r Map.empty = Inr f" by auto
  with Cons \<open>k < length r\<close> show ?case by (simp add: index_row_nat)
qed

lemma rows_loop_untouched:
  "rows_loop hs (int k) rows m = Inr m' \<Longrightarrow> \<forall>r\<in>set rows. length r = length hs \<Longrightarrow>
     k < length hs \<Longrightarrow> \<forall>r\<in>set rows. r ! k \<noteq> x \<Longrightarrow> m' x = m x"
proof (induction rows arbitrary: m)
  case Nil
  then show ?case by simp
next
  case (Cons r rows)
  then have "k < length r" by auto
  with Cons.prems(1) obtain f where
    "rows_loop hs (int k) rows (m(r ! k \<mapsto> f)) = Inr m'"
    by (auto simp: index_row_nat split: sum.splits)
  from Cons.IH[OF this] Cons.prems show ?case by auto
qed

lemma fields_loop_sound:
  "fields_loop hs (int i0) k row acc = Inr f \<Longrightarrow> i0 + length hs \<le> length row \<Longrightarrow>
     f h = Some c \<Longrightarrow>
     acc h = Some c \<or>
     (\<exists>n<length hs. int (i0 + n) \<noteq> k \<and> hs ! n = h \<and> c = VString (row ! (i0 + n)))"
proof (induction hs arbitrary: i0 acc)
  case Nil
  then show ?case by simp
next
  case (Cons x hs)
  from Cons.prems(2) have len: "i0 < length row" "Suc i0 + length hs \<le> length row" by auto
  let ?later = "\<exists>n<length hs. int (Suc i0 + n) \<noteq> k \<and> hs ! n = h \<and> c = VString (row ! (Suc i0 + n))"
  have up: "\<exists>n<length (x # hs). int (i0 + n) \<noteq> k \<and> (x # hs) ! n = h \<and>
      c = VString (row ! (i0 + n))" if ?later
  proof -
    from that obtain n where "n < length hs" "int (Suc i0 + n) \<noteq> k" "hs ! n = h"
      "c = VString (row ! (Suc i0 + n))" by blast
    then show ?thesis by (intro exI[of _ "Suc n"]) simp
  qed
  show ?case
  proof (cases "int i0 = k")
    case True
    with Cons.prems(1)[unfolded fields_loop_Cons]
    have "fields_loop hs (int (Suc i0)) k row acc = Inr f" by (simp del: of_nat_Suc)
    from Cons.IH[OF this len(2) Cons.prems(3)] up show ?thesis by blast
  next
    case False
    with Cons.prems(1)[unfolded fields_loop_Cons] len
    have "fields_loop hs (int (Suc i0)) k row (acc(x \<mapsto> VString (row ! i0))) = Inr f"
      by (simp add: index_row_nat del: of_nat_Suc)
    from Cons.IH[OF this len(2) Cons.prems(3)]
    consider "(acc(x \<mapsto> VString (row ! i0))) h = Some c" | ?later by blast
    then show ?thesis
    proof cases
      case 1
      show ?thesis
      proof (cases "x = h")
        case True
        with 1 have "c = VString (row ! i0)" by simp
        with True False show ?thesis by (intro disjI2 exI[of _ 0]) simp
      next
        case False
        with 1 show ?thesis by simp
      qed
    next
      case 2
      with up show ?thesis by blast
    qed
  qed
qed

lemma first_index:
  "x \<in> set xs \<Longrightarrow> \<exists>k<length xs. xs ! k = x \<and> (\<forall>j<k. xs ! j \<noteq> x)"
proof (induction xs)
  case Nil
  then show ?case by simp
next
  case (Cons y ys)
  show ?case
  proof (cases "y = x")
    case True
    then show ?thesis by (intro exI[of _ 0]) simp
  next
    case False
    with Cons obtain k where k: "k < length ys" "ys ! k = x" "\<forall>j<k. ys ! j \<noteq> x" by auto
    have "\<forall>j<Suc k. (y # ys) ! j \<noteq> x"
    proof (intro allI impI)
      fix j assume "j < Suc k"
      with k(3) False show "(y # ys) ! j \<noteq> x" by (cases j) auto
    qed
    with k show ?thesis by (intro exI[of _ "Suc k"]) simp
  qed
qed

lemma extractFileData_found:
  "readAll filePath = Inr (headers # rows) \<Longrightarrow>
     k < length headers \<Longrightarrow> headers ! k = ''id'' \<Longrightarrow> \<forall>j<k. headers ! j \<noteq> ''id'' \<Longrightarrow>
     extractFileData readAll filePath = rows_loop headers (int k) rows Map.empty"
  using idIndex_found[of k headers 0] by (simp add: extractFileData_def)

section \<open>Claims about the reader and the writer\<close>

text \<open>
  C1, as amended. Whenever no segment before the last holds a non-tree value, the writer
  completes and the reader then returns at the same path the value written. The one
  exception is Go's nil: it is stored as nil and read back as the string
  \<^verbatim>\<open>"NULL"\<close>. The string \<^verbatim>\<open>"NULL"\<close> itself is stored as nil and read back
  as \<^verbatim>\<open>"NULL"\<close>, so it does make the round trip.
\<close>

theorem insert_extract_roundtrip:
  "p \<noteq> [] \<Longrightarrow> \<not> intermediate_not_tree t p \<Longrightarrow>
     \<exists>t'. insertFieldValue t p v = Inr t' \<and>
          extractFieldValue t' p = (if v = VNil then NullValue else v)"
  using insert_total[of p t v] insert_then_extract[of t p v] by auto

theorem insert_extract_roundtrip_witness:
  "[''x'', ''y''] \<noteq> [] \<and> \<not> intermediate_not_tree Map.empty [''x'', ''y''] \<and>
   (\<exists>t'. insertFieldValue Map.empty [''x'', ''y''] (VString ''NULL'') = Inr t' \<and>
         extractFieldValue t' [''x'', ''y''] = VString ''NULL'')"
  using insert_extract_roundtrip[where p = "[''x'', ''y'']" and t = Map.empty
      and v = "VString ''NULL''"]
  by (simp add: intermediate_empty NullValue_def)

text \<open>
  C1 as stated fails on a tree that violates the precondition of the writer: writing at
  \<^verbatim>\<open>a.b\<close> into \<^verbatim>\<open>{"a": 1}\<close> produces no tree to read from. And if its
  exception is the sentinel \<^verbatim>\<open>"NULL"\<close>, it fails at nil too, which is another
  value: nil written at \<^verbatim>\<open>a\<close> into the empty tree is read back as \<^verbatim>\<open>"NULL"\<close>.
\<close>

theorem roundtrip_counterexample:
  "insertFieldValue (Map.empty(''a'' \<mapsto> VFloat 1)) [''a'', ''b''] (VFloat 2)
     = Inl TypeAssertionFailure \<and>
   VFloat 2 \<noteq> NullValue \<and> VFloat 2 \<noteq> VNil \<and>
   insertFieldValue Map.empty [''a''] VNil = Inr (Map.empty(''a'' \<mapsto> VNil)) \<and>
   extractFieldValue (Map.empty(''a'' \<mapsto> VNil)) [''a''] = VString ''NULL'' \<and>
   VString ''NULL'' \<noteq> VNil \<and> VNil \<noteq> NullValue"
  by (simp add: NullValue_def)

text \<open>
  C2. For a path of at least two segments the writer ends in the type-assertion panic
  when some segment before the last holds a value that is no tree, and returns a tree
  when none does: the panic is reached exactly on the violated precondition.
\<close>

theorem insert_type_assertion_iff:
  "2 \<le> length p \<Longrightarrow>
     (intermediate_not_tree t p \<longrightarrow> insertFieldValue t p v = Inl TypeAssertionFailure) \<and>
     (\<not> intermediate_not_tree t p \<longrightarrow> (\<exists>t'. insertFieldValue t p v = Inr t'))"
proof -
  assume "2 \<le> length p"
  then have "p \<noteq> []" by auto
  with insert_fails_iff[of t p v] insert_total[of p t v] show ?thesis by auto
qed

theorem insert_type_assertion_iff_witness:
  "2 \<le> length [''a'', ''b''] \<and>
   intermediate_not_tree (Map.empty(''a'' \<mapsto> VFloat 1)) [''a'', ''b''] \<and>
   insertFieldValue (Map.empty(''a'' \<mapsto> VFloat 1)) [''a'', ''b''] (VFloat 2)
     = Inl TypeAssertionFailure \<and>
   \<not> intermediate_not_tree (Map.empty(''a'' \<mapsto> VMap Map.empty)) [''a'', ''b''] \<and>
   (\<exists>t'. insertFieldValue (Map.empty(''a'' \<mapsto> VMap Map.empty)) [''a'', ''b''] (VFloat 2)
     = Inr t')"
  using insert_type_assertion_iff[where p = "[''a'', ''b'']"
      and t = "Map.empty(''a'' \<mapsto> VFloat 1)" and v = "VFloat 2"]
    insert_type_assertion_iff[where p = "[''a'', ''b'']"
      and t = "Map.empty(''a'' \<mapsto> VMap Map.empty)" and v = "VFloat 2"]
  by (simp add: intermediate_Cons intermediate_short)

text \<open>
  C3. The reader returns nil when the first segment is no key of the tree, and when
  segments remain at a value that is no tree, at whatever depth that value is stored.
  The reader has no way to fail: its result is a value, never an error.
\<close>

theorem extract_nil_cases:
  "(data p0 = None \<longrightarrow> extractFieldValue data (p0 # rest) = VNil) \<and>
   (pre \<noteq> [] \<and> remaining \<noteq> [] \<and> stored_at data pre = Some v \<and> \<not> is_tree v \<longrightarrow>
      extractFieldValue data (pre @ remaining) = VNil)"
  using extract_through_non_tree[of pre remaining data v] by simp

theorem extract_nil_cases_witness:
  "(Map.empty(''a'' \<mapsto> VString ''NULL'')) ''z'' = None \<and>
   extractFieldValue (Map.empty(''a'' \<mapsto> VString ''NULL'')) (''z'' # [''b'']) = VNil \<and>
   [''a''] \<noteq> [] \<and> [''b''] \<noteq> [] \<and>
   stored_at (Map.empty(''a'' \<mapsto> VString ''NULL'')) [''a''] = Some (VString ''NULL'') \<and>
   \<not> is_tree (VString ''NULL'') \<and>
   extractFieldValue (Map.empty(''a'' \<mapsto> VString ''NULL'')) ([''a''] @ [''b'']) = VNil"
  using extract_nil_cases[where data = "Map.empty(''a'' \<mapsto> VString ''NULL'')"
      and ?p0.0 = "''z''" and rest = "[''b'']" and pre = "[''a'']" and remaining = "[''b'']"
      and v = "VString ''NULL''"]
  by simp

text \<open>
  C4. Running the writer a second time with the same path and value, on the tree the
  first run left, changes nothing: two runs in sequence end as one run does, in the same
  tree or in the same panic.
\<close>

theorem insert_idempotent:
  "(case insertFieldValue t p v of
      Inl e \<Rightarrow> Inl e
    | Inr t' \<Rightarrow> insertFieldValue t' p v) = insertFieldValue t p v"
  by (cases "insertFieldValue t p v") (simp_all add: insert_twice)

theorem insert_idempotent_witness:
  "(case insertFieldValue Map.empty [''x'', ''y''] (VFloat 5) of
      Inl e \<Rightarrow> Inl e
    | Inr t' \<Rightarrow> insertFieldValue t' [''x'', ''y''] (VFloat 5))
     = Inr (Map.empty(''x'' \<mapsto> VMap (Map.empty(''y'' \<mapsto> VFloat 5))))"
  using insert_idempotent[where t = Map.empty and p = "[''x'', ''y'']" and v = "VFloat 5"]
  by (simp add: NullValue_def)

text \<open>
  C9. The sentinel is the string \<^verbatim>\<open>"NULL"\<close>. A tree that stores this string at a
  path reads exactly as a tree that stores nil there; writing the string stores nil; and
  a mapping rule whose source field holds the string writes nil into the output.
\<close>

theorem sentinel_collision:
  "NullValue = VString ''NULL'' \<and>
   (p \<noteq> [] \<and> stored_at t p = Some (VString ''NULL'') \<longrightarrow> extractFieldValue t p = NullValue) \<and>
   (p \<noteq> [] \<and> stored_at u p = Some VNil \<longrightarrow> extractFieldValue u p = NullValue) \<and>
   (insertFieldValue t p (VString ''NULL'') = Inr t' \<longrightarrow> stored_at t' p = Some VNil) \<and>
   (stored_at source (Split_dot oldField) = Some (VString ''NULL'') \<longrightarrow>
      main_field_mapping_step source newSource (newField, oldField)
        = insertFieldValue newSource (Split_dot newField) (VString ''NULL'') \<and>
      (main_field_mapping_step source newSource (newField, oldField) = Inr newSource' \<longrightarrow>
         stored_at newSource' (Split_dot newField) = Some VNil))"
proof -
  have a: "extractFieldValue t p = NullValue"
    if "p \<noteq> []" "stored_at t p = Some (VString ''NULL'')" for t p
    using that by (simp add: extract_stored NullValue_def)
  have b: "extractFieldValue u p = NullValue" if "p \<noteq> []" "stored_at u p = Some VNil"
    using that by (simp add: extract_stored)
  have c: "stored_at t' p = Some VNil"
    if "insertFieldValue t p (VString ''NULL'') = Inr t'" for t t' p
    using insert_stored[OF that] by (simp add: NullValue_def)
  have d: "main_field_mapping_step source newSource (newField, oldField)
      = insertFieldValue newSource (Split_dot newField) (VString ''NULL'')"
    if "stored_at source (Split_dot oldField) = Some (VString ''NULL'')"
    using a[OF Split_dot_nonempty that]
    by (simp add: main_field_mapping_step_def NullValue_def)
  show ?thesis
    using a[of p t] b c[of t p t'] d c[of newSource "Split_dot newField" newSource']
    by (auto simp: NullValue_def)
qed

theorem sentinel_collision_witness:
  "[''f''] \<noteq> [] \<and> stored_at (Map.empty(''f'' \<mapsto> VString ''NULL'')) [''f''] = Some (VString ''NULL'') \<and>
   extractFieldValue (Map.empty(''f'' \<mapsto> VString ''NULL'')) [''f''] = NullValue \<and>
   stored_at (Map.empty(''f'' \<mapsto> VNil)) [''f''] = Some VNil \<and>
   extractFieldValue (Map.empty(''f'' \<mapsto> VNil)) [''f''] = NullValue \<and>
   insertFieldValue (Map.empty(''f'' \<mapsto> VString ''NULL'')) [''f''] (VString ''NULL'')
     = Inr (Map.empty(''f'' \<mapsto> VNil)) \<and>
   stored_at (Map.empty(''f'' \<mapsto> VString ''NULL'')) (Split_dot ''f'') = Some (VString ''NULL'') \<and>
   main_field_mapping_step (Map.empty(''f'' \<mapsto> VString ''NULL'')) Map.empty (''g'', ''f'')
     = Inr (Map.empty(''g'' \<mapsto> VNil)) \<and>
   stored_at (Map.empty(''g'' \<mapsto> VNil)) (Split_dot ''g'') = Some VNil"
  using sentinel_collision[where p = "[''f'']" and t = "Map.empty(''f'' \<mapsto> VString ''NULL'')"
      and u = "Map.empty(''f'' \<mapsto> VNil)" and t' = "Map.empty(''f'' \<mapsto> VNil)"
      and source = "Map.empty(''f'' \<mapsto> VString ''NULL'')" and oldField = "''f''"
      and newField = "''g''" and newSource = Map.empty
      and newSource' = "Map.empty(''g'' \<mapsto> VNil)"]
  by (simp add: NullValue_def main_field_mapping_step_def)

section \<open>Claims about the field mapping\<close>



section \<open>Claims about the random values\<close>

text \<open>
  C6, as amended. For the types long, integer, short and byte the bounds are truncated
  toward zero before use. When the truncated bounds lie in the range of a 64-bit
  \<^verbatim>\<open>int\<close> and the number of integers between them does too, the generator returns
  an integer between the truncated bounds; these are the bounds themselves when both are
  integers.
\<close>

theorem integer_in_truncated_range:
  assumes ty: "config ''type'' = Some (VString ty)"
      "ty \<in> {''long'', ''integer'', ''short'', ''byte''}"
    and mn: "config ''min'' = Some (VFloat fmn)"
    and mx: "config ''max'' = Some (VFloat fmx)"
    and le: "fmn \<le> fmx"
    and lo: "- (2 ^ 63) \<le> truncate_toward_zero fmn"
    and hi: "truncate_toward_zero fmx < 2 ^ 63"
    and span: "truncate_toward_zero fmx - truncate_toward_zero fmn + 1 < 2 ^ 63"
  shows "\<exists>k. generateRandomValue lib rn config = Inr (VInt k, stl rn) \<and>
           truncate_toward_zero fmn \<le> k \<and> k \<le> truncate_toward_zero fmx \<and>
           (\<forall>a b. fmn = of_int a \<and> fmx = of_int b \<longrightarrow> a \<le> k \<and> k \<le> b)"
proof -
  let ?a = "truncate_toward_zero fmn" and ?b = "truncate_toward_zero fmx"
  have ab: "?a \<le> ?b" using le by (rule truncate_mono)
  have fa: "float64_to_int fmn = ?a" using lo hi ab by (intro float64_to_int_in_range) auto
  have fb: "float64_to_int fmx = ?b" using lo hi ab by (intro float64_to_int_in_range) auto
  have w1: "wrap_int (?b - ?a) = ?b - ?a" using ab span by (intro wrap_int_id) auto
  have w2: "wrap_int (?b - ?a + 1) = ?b - ?a + 1" using ab span by (intro wrap_int_id) auto
  from ab have "0 < ?b - ?a + 1" by simp
  from Intn_range[OF this, of rn] obtain i where
    i: "Intn rn (?b - ?a + 1) = Inr (i, stl rn)" "0 \<le> i" "i < ?b - ?a + 1" by blast
  have w3: "wrap_int (i + ?a) = i + ?a" using i lo hi by (intro wrap_int_id) auto
  have "generateRandomValue lib rn config = Inr (VInt (i + ?a), stl rn)"
    by (simp add: integer_branch[OF ty mn mx] fa fb w1 w2 w3 i)
  moreover have "?a \<le> i + ?a" "i + ?a \<le> ?b" using i by auto
  ultimately show ?thesis by (auto simp: truncate_of_int)
qed

text \<open>
  With \<^verbatim>\<open>min\<close> and \<^verbatim>\<open>max\<close> both 1 the result is exactly 1.
\<close>

theorem integer_in_truncated_range_witness:
  "(Map.empty(''type'' \<mapsto> VString ''long'', ''min'' \<mapsto> VFloat 1, ''max'' \<mapsto> VFloat 1)) ''type''
     = Some (VString ''long'') \<and>
   ''long'' \<in> {''long'', ''integer'', ''short'', ''byte''} \<and>
   (1::rat) \<le> 1 \<and> - (2 ^ 63) \<le> truncate_toward_zero 1 \<and> truncate_toward_zero 1 < 2 ^ 63 \<and>
   truncate_toward_zero 1 - truncate_toward_zero 1 + 1 < 2 ^ 63 \<and>
   generateRandomValue stub_library (siterate Suc 7)
     (Map.empty(''type'' \<mapsto> VString ''long'', ''min'' \<mapsto> VFloat 1, ''max'' \<mapsto> VFloat 1))
     = Inr (VInt 1, stl (siterate Suc 7))"
proof -
  let ?config = "Map.empty(''type'' \<mapsto> VString ''long'', ''min'' \<mapsto> VFloat 1, ''max'' \<mapsto> VFloat 1)"
  have ty: "?config ''type'' = Some (VString ''long'')" by simp
  have mem: "''long'' \<in> {''long'', ''integer'', ''short'', ''byte''}" by simp
  have mn: "?config ''min'' = Some (VFloat 1)" by simp
  have mx: "?config ''max'' = Some (VFloat 1)" by simp
  have t: "truncate_toward_zero 1 = 1" by (rule truncate_examples)
  have lo: "- (2 ^ 63) \<le> truncate_toward_zero 1" by (simp add: t)
  have hi: "truncate_toward_zero 1 < 2 ^ 63" by (simp add: t)
  have span: "truncate_toward_zero 1 - truncate_toward_zero 1 + 1 < 2 ^ 63" by (simp add: t)
  from integer_in_truncated_range[OF ty mem mn mx order_refl lo hi span,
      of stub_library "siterate Suc 7"]
  obtain k where "generateRandomValue stub_library (siterate Suc 7) ?config
      = Inr (VInt k, stl (siterate Suc 7))" and "1 \<le> k" and "k \<le> 1"
    unfolding t by blast
  then have "generateRandomValue stub_library (siterate Suc 7) ?config
      = Inr (VInt 1, stl (siterate Suc 7))"
    by simp
  with ty mem lo hi span show ?thesis by simp
qed

text \<open>
  C6 as stated fails twice. For the bounds 0.5 and 0.75 the generator returns 0, which
  lies below the lower bound. For the bounds \<^verbatim>\<open>-2^62\<close> and \<^verbatim>\<open>2^62\<close> the size of the range
  wraps around to a negative number and \<^verbatim>\<open>Intn\<close> panics.
\<close>

theorem integer_range_counterexample:
  "generateRandomValue stub_library (siterate Suc 7)
     (Map.empty(''type'' \<mapsto> VString ''long'', ''min'' \<mapsto> VFloat (1 / 2), ''max'' \<mapsto> VFloat (3 / 4)))
     = Inr (VInt 0, stl (siterate Suc 7)) \<and>
   (1 / 2 :: rat) \<le> 3 / 4 \<and> (of_int 0 :: rat) < 1 / 2 \<and>
   generateRandomValue stub_library (siterate Suc 7)
     (Map.empty(''type'' \<mapsto> VString ''long'', ''min'' \<mapsto> VFloat (- (2 ^ 62)),
        ''max'' \<mapsto> VFloat (2 ^ 62)))
     = Inl IntnInvalidArgument \<and>
   (- (2 ^ 62) :: rat) \<le> 2 ^ 62"
proof -
  let ?frac = "Map.empty(''type'' \<mapsto> VString ''long'', ''min'' \<mapsto> VFloat (1 / 2),
      ''max'' \<mapsto> VFloat (3 / 4))"
  let ?wide = "Map.empty(''type'' \<mapsto> VString ''long'', ''min'' \<mapsto> VFloat (- (2 ^ 62)),
      ''max'' \<mapsto> VFloat (2 ^ 62))"
  have mem: "''long'' \<in> {''long'', ''integer'', ''short'', ''byte''}" by simp
  have "?frac ''type'' = Some (VString ''long'')" "?frac ''min'' = Some (VFloat (1 / 2))"
    "?frac ''max'' = Some (VFloat (3 / 4))"
    by simp_all
  note branch = integer_branch[OF this(1) mem this(2,3), of stub_library "siterate Suc 7"]
  have frac: "generateRandomValue stub_library (siterate Suc 7) ?frac
      = Inr (VInt 0, stl (siterate Suc 7))"
    unfolding branch float64_to_int_examples by (simp add: wrap_int_examples Intn_def)
  have n: "wrap_int (wrap_int (float64_to_int (2 ^ 62) - float64_to_int (- (2 ^ 62))) + 1)
      = - (2 ^ 63) + 1"
    unfolding float64_to_int_examples wrap_int_examples ..
  have "?wide ''type'' = Some (VString ''long'')" "?wide ''min'' = Some (VFloat (- (2 ^ 62)))"
    "?wide ''max'' = Some (VFloat (2 ^ 62))"
    by simp_all
  note branch = integer_branch[OF this(1) mem this(2,3), of stub_library "siterate Suc 7"]
  have wide: "generateRandomValue stub_library (siterate Suc 7) ?wide = Inl IntnInvalidArgument"
    unfolding branch n by (simp add: Intn_def)
  have "(1 / 2 :: rat) \<le> 3 / 4" "(of_int 0 :: rat) < 1 / 2" "(- (2 ^ 62) :: rat) \<le> 2 ^ 62"
    by simp_all
  with frac wide show ?thesis by blast
qed

text \<open>
  C7. For the types keyword, wildcard and constant_keyword with a non-empty list of
  values, the generator returns one of the elements of that list, whatever the draw.
\<close>

theorem keyword_returns_listed_value:
  assumes ty: "config ''type'' = Some (VString ty)"
      "ty \<in> {''keyword'', ''wildcard'', ''constant_keyword''}"
    and vs: "config ''values'' = Some (VArray vs)" "vs \<noteq> []"
  shows "\<exists>v. generateRandomValue lib rn config = Inr (v, stl rn) \<and> v \<in> set vs"
proof -
  from vs have "0 < int (length vs)" by simp
  from Intn_range[OF this, of rn] obtain i where
    i: "Intn rn (int (length vs)) = Inr (i, stl rn)" "0 \<le> i" "i < int (length vs)" by blast
  then have "nat i < length vs" by simp
  then have "vs ! nat i \<in> set vs" by simp
  moreover have "generateRandomValue lib rn config = Inr (vs ! nat i, stl rn)"
    by (simp add: keyword_branch[OF ty vs(1)] i)
  ultimately show ?thesis by blast
qed

theorem keyword_returns_listed_value_witness:
  "(Map.empty(''type'' \<mapsto> VString ''keyword'',
      ''values'' \<mapsto> VArray [VString ''a'', VString ''b''])) ''type'' = Some (VString ''keyword'') \<and>
   ''keyword'' \<in> {''keyword'', ''wildcard'', ''constant_keyword''} \<and>
   [VString ''a'', VString ''b''] \<noteq> [] \<and>
   (\<exists>v. generateRandomValue stub_library (siterate Suc 7)
      (Map.empty(''type'' \<mapsto> VString ''keyword'',
         ''values'' \<mapsto> VArray [VString ''a'', VString ''b''])) = Inr (v, stl (siterate Suc 7)) \<and>
      (v = VString ''a'' \<or> v = VString ''b''))"
proof -
  let ?config = "Map.empty(''type'' \<mapsto> VString ''keyword'',
      ''values'' \<mapsto> VArray [VString ''a'', VString ''b''])"
  have ty: "?config ''type'' = Some (VString ''keyword'')" by simp
  have mem: "''keyword'' \<in> {''keyword'', ''wildcard'', ''constant_keyword''}" by simp
  have vs: "?config ''values'' = Some (VArray [VString ''a'', VString ''b''])" by simp
  have ne: "[VString ''a'', VString ''b''] \<noteq> []" by simp
  from keyword_returns_listed_value[OF ty mem vs ne, of stub_library "siterate Suc 7"]
  obtain v where "generateRandomValue stub_library (siterate Suc 7) ?config
      = Inr (v, stl (siterate Suc 7))" and "v \<in> set [VString ''a'', VString ''b'']"
    by blast
  then have "\<exists>v. generateRandomValue stub_library (siterate Suc 7) ?config
      = Inr (v, stl (siterate Suc 7)) \<and> (v = VString ''a'' \<or> v = VString ''b'')"
    by (intro exI[of _ v]) simp
  with ty mem ne show ?thesis by blast
qed

section \<open>Claims about the side-data table\<close>

text \<open>
  C8. Take a table whose rows all have as many cells as the header, as the CSV reader
  delivers them, and a row after which no row carries the same id; rows before it may.
  The loader maps that id to the fields of this row. Every field comes from a column
  other than the id column, under the header of that column; and every column other than
  the id column whose header no later such column repeats is stored under its header.
\<close>

theorem later_row_wins:
  assumes read: "readAll filePath = Inr (headers # pre @ row # post)"
    and rect: "\<forall>r\<in>set (pre @ row # post). length r = length headers"
    and k: "k < length headers" "headers ! k = ''id''" "\<forall>j<k. headers ! j \<noteq> ''id''"
    and later: "\<forall>r\<in>set post. r ! k \<noteq> row ! k"
  shows "\<exists>m fieldset.
      extractFileData readAll filePath = Inr m \<and>
      m (row ! k) = Some fieldset \<and>
      (\<forall>h c. fieldset h = Some c \<longrightarrow>
         (\<exists>n<length headers. n \<noteq> k \<and> headers ! n = h \<and> c = VString (row ! n))) \<and>
      (\<forall>n<length headers.
         n \<noteq> k \<and> (\<forall>j<length headers. n < j \<and> j \<noteq> k \<longrightarrow> headers ! j \<noteq> headers ! n) \<longrightarrow>
         fieldset (headers ! n) = Some (VString (row ! n)))"
proof -
  from rect have rpre: "\<forall>r\<in>set pre. length r = length headers"
    and rrow: "length row = length headers"
    and rpost: "\<forall>r\<in>set post. length r = length headers" by auto
  from rows_loop_total[OF rpre k(1)] obtain m1 where
    m1: "rows_loop headers (int k) pre Map.empty = Inr m1" by blast
  from rrow have len: "0 + length headers \<le> length row" by simp
  from fields_loop_total[OF len] obtain fieldset where
    f: "fields_loop headers 0 (int k) row Map.empty = Inr fieldset" by auto
  from rows_loop_total[OF rpost k(1)] obtain m where
    m: "rows_loop headers (int k) post (m1(row ! k \<mapsto> fieldset)) = Inr m" by blast
  from rrow k(1) have "index_row row (int k) = Inr (row ! k)" by (simp add: index_row_nat)
  with m1 f m have "rows_loop headers (int k) (pre @ row # post) Map.empty = Inr m"
    by (simp add: rows_loop_append)
  then have run: "extractFileData readAll filePath = Inr m"
    by (simp add: extractFileData_found[of readAll filePath, OF read k])
  from rows_loop_untouched[OF m rpost k(1) later] have stored: "m (row ! k) = Some fieldset"
    by simp
  from f have f': "fields_loop headers (int 0) (int k) row Map.empty = Inr fieldset" by simp
  have sound: "\<exists>n<length headers. n \<noteq> k \<and> headers ! n = h \<and> c = VString (row ! n)"
    if "fieldset h = Some c" for h c
    using fields_loop_sound[OF f' len that] by auto
  have complete: "fieldset (headers ! n) = Some (VString (row ! n))"
    if "n < length headers" "n \<noteq> k"
      "\<forall>j<length headers. n < j \<and> j \<noteq> k \<longrightarrow> headers ! j \<noteq> headers ! n" for n
    using fields_loop_last[OF f' that(1) _ len] that(2,3) by simp
  from run stored sound complete show ?thesis by blast
qed

theorem later_row_wins_witness:
  "length [''42'', ''Alice''] = length [''id'', ''name''] \<and>
   length [''42'', ''Bob''] = length [''id'', ''name''] \<and>
   length [''7'', ''Carol''] = length [''id'', ''name''] \<and>
   0 < length [''id'', ''name''] \<and> [''id'', ''name''] ! 0 = ''id'' \<and>
   [''42'', ''Alice''] ! 0 = [''42'', ''Bob''] ! 0 \<and>
   [''7'', ''Carol''] ! 0 \<noteq> [''42'', ''Bob''] ! 0 \<and>
   (\<exists>m fieldset.
      extractFileData
        (\<lambda>path. Inr ([''id'', ''name''] #
           [[''42'', ''Alice'']] @ [''42'', ''Bob''] # [[''7'', ''Carol'']]))
        ''side.csv'' = Inr m \<and>
      m ''42'' = Some fieldset \<and> fieldset ''name'' = Some (VString ''Bob'') \<and>
      fieldset ''id'' = None)"
proof -
  let ?headers = "[''id'', ''name'']"
  let ?readAll = "\<lambda>path :: string. Inr (?headers #
      [[''42'', ''Alice'']] @ [''42'', ''Bob''] # [[''7'', ''Carol'']]) :: error + string list list"
  have read: "?readAll ''side.csv''
      = Inr (?headers # [[''42'', ''Alice'']] @ [''42'', ''Bob''] # [[''7'', ''Carol'']])" ..
  have rect: "\<forall>r\<in>set ([[''42'', ''Alice'']] @ [''42'', ''Bob''] # [[''7'', ''Carol'']]).
      length r = length ?headers" by simp
  have k: "0 < length ?headers" "?headers ! 0 = ''id''" "\<forall>j<0. ?headers ! j \<noteq> ''id''"
    by simp_all
  have later: "\<forall>r\<in>set [[''7'', ''Carol'']]. r ! 0 \<noteq> [''42'', ''Bob''] ! 0" by simp
  from later_row_wins[of ?readAll "''side.csv''", OF read rect k later] obtain m fieldset where
    run: "extractFileData ?readAll ''side.csv'' = Inr m"
    and stored: "m ([''42'', ''Bob''] ! 0) = Some fieldset"
    and sound: "\<forall>h c. fieldset h = Some c \<longrightarrow>
         (\<exists>n<length ?headers. n \<noteq> 0 \<and> ?headers ! n = h \<and> c = VString ([''42'', ''Bob''] ! n))"
    and complete: "\<forall>n<length ?headers.
         n \<noteq> 0 \<and> (\<forall>j<length ?headers. n < j \<and> j \<noteq> 0 \<longrightarrow> ?headers ! j \<noteq> ?headers ! n) \<longrightarrow>
         fieldset (?headers ! n) = Some (VString ([''42'', ''Bob''] ! n))"
    by blast
  from complete[rule_format, of 1] have name: "fieldset ''name'' = Some (VString ''Bob'')"
    by simp
  have noid: "fieldset ''id'' = None"
  proof (cases "fieldset ''id''")
    case (Some c)
    with sound obtain n where "n < length ?headers" "n \<noteq> 0" "?headers ! n = ''id''" by blast
    then have "n = 1" by simp
    with \<open>?headers ! n = ''id''\<close> show ?thesis by simp
  qed simp
  from stored have "m ''42'' = Some fieldset" by simp
  with run name noid show ?thesis by simp
qed

text \<open>
  C10. On no records at all the loader stops with an index out of range at
  \<^verbatim>\<open>records[0]\<close>, not with the fatal message about the missing id column: that
  message needs a header row to be reached. With a header row and rows of its length
  there is no index out of range.
\<close>

theorem empty_records_index_failure:
  "(readAll filePath = Inr [] \<longrightarrow> extractFileData readAll filePath = Inl IndexOutOfRange) \<and>
   (readAll filePath = Inr (headers # rows) \<and> ''id'' \<notin> set headers \<longrightarrow>
      extractFileData readAll filePath = Inl (Fatal ''id column not found'')) \<and>
   (readAll filePath = Inr (headers # rows) \<and> (\<forall>r\<in>set rows. length r = length headers) \<longrightarrow>
      extractFileData readAll filePath \<noteq> Inl IndexOutOfRange)"
proof -
  have a: "extractFileData readAll filePath = Inl IndexOutOfRange"
    if "readAll filePath = Inr []"
    using that by (simp add: extractFileData_def)
  have b: "extractFileData readAll filePath = Inl (Fatal ''id column not found'')"
    if "readAll filePath = Inr (headers # rows)" "''id'' \<notin> set headers"
    using that(1) idIndex_missing[OF that(2), of 0] by (simp add: extractFileData_def)
  have c: "extractFileData readAll filePath \<noteq> Inl IndexOutOfRange"
    if read: "readAll filePath = Inr (headers # rows)"
      and rect: "\<forall>r\<in>set rows. length r = length headers"
  proof (cases "''id'' \<in> set headers")
    case True
    from first_index[OF this] obtain k where
      k: "k < length headers" "headers ! k = ''id''" "\<forall>j<k. headers ! j \<noteq> ''id''" by blast
    from rows_loop_total[OF rect k(1), of Map.empty] show ?thesis
      by (auto simp: extractFileData_found[of readAll filePath, OF read k])
  next
    case False
    from b[OF read this] show ?thesis by simp
  qed
  from a b c show ?thesis by blast
qed

theorem empty_records_index_failure_witness:
  "extractFileData (\<lambda>path. Inr []) ''side.csv'' = Inl IndexOutOfRange \<and>
   ''id'' \<notin> set [''name''] \<and>
   extractFileData (\<lambda>path. Inr ([''name''] # [[''Alice'']])) ''side.csv''
     = Inl (Fatal ''id column not found'') \<and>
   length [''Alice''] = length [''name''] \<and>
   extractFileData (\<lambda>path. Inr ([''name''] # [[''Alice'']])) ''side.csv''
     \<noteq> Inl IndexOutOfRange"
  using empty_records_index_failure[where readAll = "\<lambda>path. Inr []" and filePath = "''side.csv''"]
    empty_records_index_failure[where readAll = "\<lambda>path. Inr ([''name''] # [[''Alice'']])"
      and filePath = "''side.csv''" and headers = "[''name'']" and rows = "[[''Alice'']]"]
  by simp

end
